theory Spec2Isabelle
  imports Main "HOL-Library.Multiset"
begin

section \<open>The interval primitive (Region)\<close>

text \<open>
  The file \<^verbatim>\<open>regionset.go\<close> uses the value type \<^verbatim>\<open>Region\<close> of the same package
  through its methods \<^verbatim>\<open>Begin\<close>, \<^verbatim>\<open>End\<close>, \<^verbatim>\<open>Contains\<close>, \<^verbatim>\<open>Intersects\<close>, \<^verbatim>\<open>Covers\<close>,
  \<^verbatim>\<open>Cover\<close>, \<^verbatim>\<open>Cut\<close>, \<^verbatim>\<open>Empty\<close>, \<^verbatim>\<open>Adjust\<close> and through \<^verbatim>\<open>==\<close>. The declaration of
  \<^verbatim>\<open>Region\<close> is not part of the sources at hand, so the type and its methods follow
  section 3 of the specification. Coordinates are mathematical integers.
\<close>

text \<open>Modelled from the spec: the type \<^verbatim>\<open>Region\<close> is missing; an interval has the two
  ordered coordinates \<open>begin\<close> and \<open>end\<close>, and equality is value equality on them.\<close>

record Region =
  Begin :: int
  End :: int

text \<open>Modelled from the spec: \<^verbatim>\<open>Region.Contains\<close> is missing; "point containment".\<close>

definition Region_Contains :: "Region \<Rightarrow> int \<Rightarrow> bool" where
  "Region_Contains r point \<longleftrightarrow> Begin r \<le> point \<and> point \<le> End r"

text \<open>Modelled from the spec: \<^verbatim>\<open>Region.Empty\<close> is missing; "true iff begin == end".\<close>

definition Empty :: "Region \<Rightarrow> bool" where
  "Empty r \<longleftrightarrow> Begin r = End r"

text \<open>Modelled from the spec: \<^verbatim>\<open>Region.Intersects\<close> is missing; "true if the two intervals
  share any coordinate", where two intervals that only share a boundary point are adjacent
  and do not overlap (INV-1 and the glossary entry on adjacency; the comment on
  \<^verbatim>\<open>RegionSet\<close> in the source says the same: regions right next to each other are not
  merged). Two intervals intersect when their common part has positive length.\<close>

definition Intersects :: "Region \<Rightarrow> Region \<Rightarrow> bool" where
  "Intersects r other \<longleftrightarrow> max (Begin r) (Begin other) < min (End r) (End other)"

text \<open>Modelled from the spec: \<^verbatim>\<open>Region.Covers\<close> is missing; "true if one interval's extent
  fully contains the other's extent".\<close>

definition Covers :: "Region \<Rightarrow> Region \<Rightarrow> bool" where
  "Covers r r2 \<longleftrightarrow> Begin r \<le> Begin r2 \<and> End r2 \<le> End r"

text \<open>Modelled from the spec: \<^verbatim>\<open>Region.Cover\<close> is missing; "smallest interval covering
  both".\<close>

definition Cover :: "Region \<Rightarrow> Region \<Rightarrow> Region" where
  "Cover r other =
     \<lparr>Begin = min (Begin r) (Begin other), End = max (End r) (End other)\<rparr>"

text \<open>Modelled from the spec: \<^verbatim>\<open>Region.Cut\<close> is missing; "the portion(s) of this interval
  not covered by other, producing the left remainder and/or right remainder", a sequence of
  zero to two intervals.\<close>

definition Region_Cut :: "Region \<Rightarrow> Region \<Rightarrow> Region list" where
  "Region_Cut r other =
     (if Begin r < Begin other
      then [\<lparr>Begin = Begin r, End = min (End r) (Begin other)\<rparr>] else []) @
     (if End other < End r
      then [\<lparr>Begin = max (Begin r) (End other), End = End r\<rparr>] else [])"

text \<open>Modelled from the spec: \<^verbatim>\<open>Region.Adjust\<close> is missing; "shift endpoints that lie
  at-or-after position by delta".\<close>

definition Region_Adjust :: "Region \<Rightarrow> int \<Rightarrow> int \<Rightarrow> Region" where
  "Region_Adjust r position delta =
     \<lparr>Begin = (if position \<le> Begin r then Begin r + delta else Begin r),
      End = (if position \<le> End r then End r + delta else End r)\<rparr>"


section \<open>The region set\<close>

text \<open>
  The struct \<^verbatim>\<open>RegionSet\<close>: the slice of regions and the callback registry. The mutex is
  left out: the operations are modelled one at a time, in sequence. The registry is a Go
  map from a key to a function; it is an association list here (a \<^verbatim>\<open>nil\<close> map is the
  empty list), and a callback is a value of an arbitrary type \<open>'cb\<close>. Callbacks are opaque:
  invoking one is recorded, and it is taken to return without touching the set.
\<close>

record 'cb RegionSet =
  regions :: "Region list"
  onChangeCallbacks :: "(string \<times> 'cb) list"

text \<open>The panics of the Go runtime that the code can raise.\<close>

datatype error = IndexOutOfRange | SliceBoundsOutOfRange

text \<open>What an operation hands back: the set after the operation and the registry entries
  whose callback it invoked, or a panic.\<close>

type_synonym 'cb outcome = "error + ('cb RegionSet \<times> (string \<times> 'cb) list)"

text \<open>\<^verbatim>\<open>onChange\<close>: every registered callback is invoked. Go iterates a map in no fixed
  order; the list below is in registry order and only its content as a multiset is meant.\<close>

definition onChange :: "'cb RegionSet \<Rightarrow> (string \<times> 'cb) list" where
  "onChange r = onChangeCallbacks r"

text \<open>\<^verbatim>\<open>AddOnChange\<close> and \<^verbatim>\<open>ClearOnChange\<close>: store under a key, overwriting; delete a key.\<close>

definition AddOnChange :: "'cb RegionSet \<Rightarrow> string \<Rightarrow> 'cb \<Rightarrow> 'cb RegionSet" where
  "AddOnChange r key cb =
     r\<lparr>onChangeCallbacks := (key, cb) # filter (\<lambda>e. fst e \<noteq> key) (onChangeCallbacks r)\<rparr>"

definition ClearOnChange :: "'cb RegionSet \<Rightarrow> string \<Rightarrow> 'cb RegionSet" where
  "ClearOnChange r key =
     r\<lparr>onChangeCallbacks := filter (\<lambda>e. fst e \<noteq> key) (onChangeCallbacks r)\<rparr>"

subsection \<open>overlaps\<close>

text \<open>The test inside the loop of \<^verbatim>\<open>overlaps\<close>.\<close>

definition overlapping :: "Region \<Rightarrow> Region \<Rightarrow> bool" where
  "overlapping reference x \<longleftrightarrow> reference = x \<or> Intersects reference x \<or> Covers reference x"

text \<open>The loop \<^verbatim>\<open>for i := start; i < end; i++\<close>; reading \<^verbatim>\<open>r.regions[i]\<close> beyond the
  length panics. Indices are natural numbers: the callers pass \<open>0\<close> for \<open>start\<close>.\<close>

function overlaps_loop ::
  "Region list \<Rightarrow> Region \<Rightarrow> nat \<Rightarrow> nat \<Rightarrow> nat list \<Rightarrow> error + nat list" where
  "overlaps_loop rs reference i end ret =
     (if i < end then
        (if i < length rs then
           (if overlapping reference (rs ! i)
            then overlaps_loop rs reference (i + 1) end (ret @ [i])
            else overlaps_loop rs reference (i + 1) end ret)
         else Inl IndexOutOfRange)
      else Inr ret)"
  by pat_completeness auto
termination
  by (relation "measure (\<lambda>(rs, reference, i, end, ret). end - i)") auto

declare overlaps_loop.simps [simp del]

definition overlaps :: "Region list \<Rightarrow> Region \<Rightarrow> nat \<Rightarrow> nat \<Rightarrow> error + nat list" where
  "overlaps rs reference start end = overlaps_loop rs reference start end []"

subsection \<open>merge\<close>

text \<open>The first loop of \<^verbatim>\<open>merge\<close>: the region at \<open>reference\<close> becomes its cover with each
  listed region in turn.\<close>

fun merge_cover :: "Region list \<Rightarrow> nat \<Rightarrow> nat list \<Rightarrow> error + Region list" where
  "merge_cover rs reference [] = Inr rs"
| "merge_cover rs reference (j # js) =
     (if reference < length rs \<and> j < length rs
      then merge_cover (rs[reference := Cover (rs ! reference) (rs ! j)]) reference js
      else Inl IndexOutOfRange)"

text \<open>Go's \<^verbatim>\<open>copy(xs[d:], src)\<close>: as many elements as fit are written over \<open>xs\<close> from
  position \<open>d\<close>; the length of \<open>xs\<close> stays. The source is read before anything is written
  (the built-in works on overlapping slices).\<close>

definition copy_at :: "'a list \<Rightarrow> nat \<Rightarrow> 'a list \<Rightarrow> 'a list" where
  "copy_at xs d src =
     (let n = min (length xs - d) (length src)
      in take d xs @ take n src @ drop (d + n) xs)"

text \<open>The second loop of \<^verbatim>\<open>merge\<close>, over the rest of the index list, with \<open>adj\<close> the
  number of indices passed so far. \<open>j2\<close> is \<^verbatim>\<open>len(r.regions) - adj\<close> at the last index and
  \<^verbatim>\<open>merge[i+1] - 1\<close> before; where Go's integer would be negative the natural number is
  \<open>0\<close>, and the guard \<^verbatim>\<open>j2 > 0\<close> fails in both. The slice expressions panic when
  \<^verbatim>\<open>j1 - adj\<close> is negative or \<open>j2\<close> lies beyond the slice. Go measures the upper bound of
  a slice expression against the capacity; the bound here is the length, which makes no
  difference inside \<^verbatim>\<open>merge\<close>: the first loop has read the slice at every listed index, so
  \<open>j2\<close> never exceeds the length when the second loop runs.\<close>

fun merge_shift :: "Region list \<Rightarrow> nat \<Rightarrow> nat list \<Rightarrow> error + Region list" where
  "merge_shift rs adj [] = Inr rs"
| "merge_shift rs adj (j1 # rest) =
     (let j2 = (case rest of [] \<Rightarrow> length rs - adj | nxt # _ \<Rightarrow> nxt - 1) in
      if j2 > 0 \<and> j1 + 1 \<le> j2 then
        (if j1 < adj \<or> length rs < j1 - adj \<or> length rs < j2 then Inl SliceBoundsOutOfRange
         else merge_shift (copy_at rs (j1 - adj) (take (j2 - (j1 + 1)) (drop (j1 + 1) rs)))
                (adj + 1) rest)
      else merge_shift rs (adj + 1) rest)"

definition merge :: "Region list \<Rightarrow> nat \<Rightarrow> nat list \<Rightarrow> error + Region list" where
  "merge rs reference m =
     (case merge_cover rs reference m of
        Inl e \<Rightarrow> Inl e
      | Inr rs1 \<Rightarrow>
          (case merge_shift rs1 0 m of
             Inl e \<Rightarrow> Inl e
           | Inr rs2 \<Rightarrow>
               if length m \<le> length rs2
               then Inr (take (length rs2 - length m) rs2)
               else Inl SliceBoundsOutOfRange))"

text \<open>Neither loop of \<^verbatim>\<open>merge\<close> changes the length of the slice; the final reslicing
  shortens it. The loop of \<^verbatim>\<open>flush\<close> below terminates for that reason.\<close>

lemma merge_cover_length: "merge_cover rs reference m = Inr rs' \<Longrightarrow> length rs' = length rs"
  by (induction m arbitrary: rs) (auto split: if_splits)

lemma copy_at_length: "d \<le> length xs \<Longrightarrow> length (copy_at xs d src) = length xs"
  by (auto simp: copy_at_def Let_def min_def)

lemma merge_shift_length: "merge_shift rs adj m = Inr rs' \<Longrightarrow> length rs' = length rs"
proof (induction m arbitrary: rs adj)
  case Nil
  then show ?case by simp
next
  case (Cons j1 rest)
  then show ?case
    by (auto simp: Let_def copy_at_length split: if_splits)
qed

lemma merge_length:
  assumes "merge rs reference m = Inr rs'"
  shows "length rs' = length rs - length m"
proof -
  from assms obtain rs1 rs2 where
    c: "merge_cover rs reference m = Inr rs1" and
    s: "merge_shift rs1 0 m = Inr rs2" and
    r: "rs' = take (length rs2 - length m) rs2"
    by (auto simp: merge_def split: sum.splits if_splits)
  from merge_cover_length[OF c] merge_shift_length[OF s] r show ?thesis
    by simp
qed

subsection \<open>flush\<close>

text \<open>The loop \<^verbatim>\<open>for i := 1; i < len(r.regions); i++\<close> of \<^verbatim>\<open>flush\<close>; the length is read
  anew at every round, and \<open>i\<close> goes up by one after a merge as well.\<close>

function flush_loop :: "Region list \<Rightarrow> nat \<Rightarrow> error + Region list" where
  "flush_loop rs i =
     (if i < length rs then
        (case overlaps rs (rs ! i) 0 i of
           Inl e \<Rightarrow> Inl e
         | Inr ov \<Rightarrow>
             (case ov of
                [] \<Rightarrow> flush_loop rs (i + 1)
              | ref # rest \<Rightarrow>
                  (case merge rs ref (rest @ [i]) of
                     Inl e \<Rightarrow> Inl e
                   | Inr rs' \<Rightarrow> flush_loop rs' (i + 1))))
      else Inr rs)"
  by pat_completeness auto
termination
proof (relation "measure (\<lambda>(rs, i). length rs - i)")
  show "wf (measure (\<lambda>(rs, i). length rs - i))" by simp
next
  fix rs :: "Region list" and i :: nat and ov :: "nat list"
  assume "i < length rs"
  then show "((rs, i + 1), (rs, i)) \<in> measure (\<lambda>(rs, i). length rs - i)" by simp
next
  fix rs rs' :: "Region list" and i ref :: nat and ov rest :: "nat list"
  assume "i < length rs" and "merge rs ref (rest @ [i]) = Inr rs'"
  then show "((rs', i + 1), (rs, i)) \<in> measure (\<lambda>(rs, i). length rs - i)"
    by (auto dest: merge_length)
qed

declare flush_loop.simps [simp del]

definition flush :: "'cb RegionSet \<Rightarrow> 'cb outcome" where
  "flush r =
     (case flush_loop (regions r) 1 of
        Inl e \<Rightarrow> Inl e
      | Inr rs \<Rightarrow> (let r' = r\<lparr>regions := rs\<rparr> in Inr (r', onChange r')))"

subsection \<open>The operations\<close>

definition Adjust :: "'cb RegionSet \<Rightarrow> int \<Rightarrow> int \<Rightarrow> 'cb outcome" where
  "Adjust r position delta =
     flush (r\<lparr>regions := map (\<lambda>x. Region_Adjust x position delta) (regions r)\<rparr>)"

definition Add :: "'cb RegionSet \<Rightarrow> Region \<Rightarrow> 'cb outcome" where
  "Add r r2 =
     (case overlaps (regions r) r2 0 (length (regions r)) of
        Inl e \<Rightarrow> Inl e
      | Inr ov \<Rightarrow>
          (let rs = regions r @ [r2] in
           case ov of
             [] \<Rightarrow> (let r' = r\<lparr>regions := rs\<rparr> in Inr (r', onChange r'))
           | ref # rest \<Rightarrow>
               (case merge rs ref (rest @ [length rs - 1]) of
                  Inl e \<Rightarrow> Inl e
                | Inr rs' \<Rightarrow> (let r' = r\<lparr>regions := rs'\<rparr> in Inr (r', onChange r')))))"

definition Clear :: "'cb RegionSet \<Rightarrow> 'cb outcome" where
  "Clear r = flush (r\<lparr>regions := take 0 (regions r)\<rparr>)"

text \<open>\<^verbatim>\<open>Get\<close> takes a Go \<^verbatim>\<open>int\<close>; indexing the slice outside its length panics.\<close>

definition Get :: "'cb RegionSet \<Rightarrow> int \<Rightarrow> error + Region" where
  "Get r i =
     (if 0 \<le> i \<and> i < int (length (regions r))
      then Inr (regions r ! nat i) else Inl IndexOutOfRange)"

definition Len :: "'cb RegionSet \<Rightarrow> int" where
  "Len r = int (length (regions r))"

definition Regions :: "'cb RegionSet \<Rightarrow> Region list" where
  "Regions r = regions r"

text \<open>The second phase of \<^verbatim>\<open>AddAll\<close>: the loop over the reduced batch, with the slice of
  the receiver and the counter \<open>start\<close> as its state. \<open>start\<close> never falls below the number
  of indices found under it, so the subtraction stays a natural number.\<close>

fun AddAll_loop :: "Region list \<Rightarrow> nat \<Rightarrow> Region list \<Rightarrow> error + Region list" where
  "AddAll_loop regs start [] = Inr regs"
| "AddAll_loop regs start (r2 # rs) =
     (case overlaps regs r2 0 start of
        Inl e \<Rightarrow> Inl e
      | Inr ov \<Rightarrow>
          (case ov of
             [] \<Rightarrow> AddAll_loop regs start rs
           | ref # rest \<Rightarrow>
               (let ov' = rest @ [length regs - 1] in
                case merge regs ref ov' of
                  Inl e \<Rightarrow> Inl e
                | Inr regs' \<Rightarrow> AddAll_loop regs' (start - length ov') rs)))"

definition AddAll :: "'cb RegionSet \<Rightarrow> Region list \<Rightarrow> 'cb outcome" where
  "AddAll r rs =
     (case flush \<lparr>regions = rs, onChangeCallbacks = []\<rparr> of
        Inl e \<Rightarrow> Inl e
      | Inr (rr, calls) \<Rightarrow>
          (let rs' = Regions rr;
               start = length (regions r);
               regs = regions r @ rs'
           in case AddAll_loop regs start rs' of
                Inl e \<Rightarrow> Inl e
              | Inr regs' \<Rightarrow>
                  (let r' = r\<lparr>regions := regs'\<rparr> in Inr (r', calls @ onChange r'))))"

fun Contains_loop :: "Region list \<Rightarrow> Region \<Rightarrow> bool" where
  "Contains_loop [] r2 = False"
| "Contains_loop (x # xs) r2 =
     (if x = r2 \<or> (Region_Contains x (Begin r2) \<and> Region_Contains x (End r2))
      then True else Contains_loop xs r2)"

definition Contains :: "'cb RegionSet \<Rightarrow> Region \<Rightarrow> bool" where
  "Contains r r2 = Contains_loop (regions r) r2"

fun HasNonEmpty_loop :: "Region list \<Rightarrow> bool" where
  "HasNonEmpty_loop [] = False"
| "HasNonEmpty_loop (x # xs) = (if \<not> Empty x then True else HasNonEmpty_loop xs)"

definition HasNonEmpty :: "'cb RegionSet \<Rightarrow> bool" where
  "HasNonEmpty r = HasNonEmpty_loop (regions r)"

fun HasEmpty_loop :: "Region list \<Rightarrow> bool" where
  "HasEmpty_loop [] = False"
| "HasEmpty_loop (x # xs) = (if Empty x then True else HasEmpty_loop xs)"

definition HasEmpty :: "'cb RegionSet \<Rightarrow> bool" where
  "HasEmpty r = HasEmpty_loop (regions r)"

text \<open>\<^verbatim>\<open>Cut\<close>: the inner loop adds the non-empty pieces of one stored region to the new
  set \<open>ret\<close>, the outer loop runs over the stored regions. The callbacks that the calls of
  \<^verbatim>\<open>Add\<close> on \<open>ret\<close> invoke are collected. The result is the receiver as the call leaves it,
  the new set, and the callbacks invoked.\<close>

fun Cut_inner ::
  "'cb RegionSet \<Rightarrow> Region list \<Rightarrow> (string \<times> 'cb) list \<Rightarrow> 'cb outcome" where
  "Cut_inner ret [] calls = Inr (ret, calls)"
| "Cut_inner ret (xr # xrs) calls =
     (if \<not> Empty xr then
        (case Add ret xr of
           Inl e \<Rightarrow> Inl e
         | Inr (ret', c) \<Rightarrow> Cut_inner ret' xrs (calls @ c))
      else Cut_inner ret xrs calls)"

fun Cut_loop ::
  "Region list \<Rightarrow> Region \<Rightarrow> 'cb RegionSet \<Rightarrow> (string \<times> 'cb) list \<Rightarrow> 'cb outcome" where
  "Cut_loop [] r2 ret calls = Inr (ret, calls)"
| "Cut_loop (x # xs) r2 ret calls =
     (case Cut_inner ret (Region_Cut x r2) calls of
        Inl e \<Rightarrow> Inl e
      | Inr (ret', calls') \<Rightarrow> Cut_loop xs r2 ret' calls')"

definition Cut ::
  "'cb RegionSet \<Rightarrow> Region \<Rightarrow> error + ('cb RegionSet \<times> 'cb RegionSet \<times> (string \<times> 'cb) list)" where
  "Cut r r2 =
     (case Cut_loop (regions r) r2 \<lparr>regions = [], onChangeCallbacks = []\<rparr> [] of
        Inl e \<Rightarrow> Inl e
      | Inr (ret, calls) \<Rightarrow> Inr (r, ret, calls))"

definition Subtract :: "'cb RegionSet \<Rightarrow> Region \<Rightarrow> 'cb outcome" where
  "Subtract r r2 =
     (case Cut r r2 of
        Inl e \<Rightarrow> Inl e
      | Inr (r0, r3, calls) \<Rightarrow>
          (let r' = r0\<lparr>regions := regions r3\<rparr> in Inr (r', calls @ onChange r')))"


section \<open>Notions used to state the properties\<close>

text \<open>A caller that adds the regions of a list one call of \<^verbatim>\<open>Add\<close> after the other; the
  callbacks invoked by the calls are collected in order.\<close>

fun Add_each :: "'cb RegionSet \<Rightarrow> Region list \<Rightarrow> 'cb outcome" where
  "Add_each r [] = Inr (r, [])"
| "Add_each r (x # xs) =
     (case Add r x of
        Inl e \<Rightarrow> Inl e
      | Inr (r', c) \<Rightarrow>
          (case Add_each r' xs of
             Inl e \<Rightarrow> Inl e
           | Inr (r'', c') \<Rightarrow> Inr (r'', c @ c')))"

text \<open>An index list as \<^verbatim>\<open>merge\<close> expects it: strictly ascending, every index inside a
  slice of length \<open>n\<close>.\<close>

definition ascending_below :: "nat \<Rightarrow> nat list \<Rightarrow> bool" where
  "ascending_below n m \<longleftrightarrow> sorted_wrt (<) m \<and> list_all (\<lambda>j. j < n) m"

text \<open>Two stored regions are in conflict when they intersect or one covers the other; a
  slice is non-overlapping when no two of its entries, at different positions, are in
  conflict.\<close>

definition conflict :: "Region \<Rightarrow> Region \<Rightarrow> bool" where
  "conflict a b \<longleftrightarrow> Intersects a b \<or> Covers a b \<or> Covers b a"

fun non_overlapping :: "Region list \<Rightarrow> bool" where
  "non_overlapping [] = True"
| "non_overlapping (x # xs) = (\<not> list_ex (conflict x) xs \<and> non_overlapping xs)"

text \<open>The sequence that the specification describes as the result of merge-group: the
  entry at the target replaced by its repeated cover with every indexed entry, the indexed
  entries removed, the others kept in their order.\<close>

definition merged_as_specified :: "Region list \<Rightarrow> nat \<Rightarrow> nat list \<Rightarrow> Region list" where
  "merged_as_specified rs target indices =
     (let u = foldl (\<lambda>acc j. Cover acc (rs ! j)) (rs ! target) indices;
          rs' = rs[target := u]
      in map snd (filter (\<lambda>p. fst p \<notin> set indices) (zip [0..<length rs'] rs')))"




section \<open>The operations do not panic\<close>

lemma overlaps_loop_filter:
  "end \<le> length rs \<Longrightarrow>
   overlaps_loop rs reference i end ret =
     Inr (ret @ filter (\<lambda>k. overlapping reference (rs ! k)) [i..<end])"
proof (induction rs reference i "end" ret rule: overlaps_loop.induct)
  case (1 rs reference i e ret)
  show ?case
  proof (cases "i < e")
    case True
    then have u: "[i..<e] = i # [i + 1..<e]" by (simp add: upt_conv_Cons)
    from True 1 show ?thesis
      by (subst overlaps_loop.simps) (simp add: u)
  next
    case False
    then show ?thesis by (subst overlaps_loop.simps) simp
  qed
qed

lemma overlaps_filter:
  "end \<le> length rs \<Longrightarrow>
   overlaps rs reference 0 end = Inr (filter (\<lambda>k. overlapping reference (rs ! k)) [0..<end])"
  by (simp add: overlaps_def overlaps_loop_filter)

lemma merge_cover_ok:
  "reference < length rs \<Longrightarrow> list_all (\<lambda>j. j < length rs) m \<Longrightarrow>
   \<exists>rs'. merge_cover rs reference m = Inr rs'"
  by (induction m arbitrary: rs) auto

lemma merge_shift_ok:
  "sorted_wrt (<) m \<Longrightarrow> list_all (\<lambda>j. adj \<le> j \<and> j < length rs) m \<Longrightarrow>
   \<exists>rs'. merge_shift rs adj m = Inr rs'"
proof (induction m arbitrary: rs adj)
  case Nil
  then show ?case by simp
next
  case (Cons j1 rest)
  from Cons.prems have s: "sorted_wrt (<) rest" by simp
  from Cons.prems have b: "adj \<le> j1" "j1 < length rs" by simp_all
  from Cons.prems have r: "list_all (\<lambda>j. adj + 1 \<le> j \<and> j < length rs) rest"
    by (auto simp: list_all_iff)
  define j2 where "j2 = (case rest of [] \<Rightarrow> length rs - adj | nxt # _ \<Rightarrow> nxt - 1)"
  from r have j2: "j2 \<le> length rs"
    by (cases rest) (auto simp: j2_def)
  define rs1 where "rs1 = copy_at rs (j1 - adj) (take (j2 - (j1 + 1)) (drop (j1 + 1) rs))"
  from b have l: "length rs1 = length rs" by (simp add: rs1_def copy_at_length)
  from Cons.IH[OF s, of "adj + 1" rs1] r l
  obtain a where a: "merge_shift rs1 (adj + 1) rest = Inr a" by auto
  from Cons.IH[OF s, of "adj + 1" rs] r
  obtain b' where b': "merge_shift rs (adj + 1) rest = Inr b'" by auto
  show ?case
    using a b' b j2 unfolding merge_shift.simps j2_def[symmetric] Let_def rs1_def[symmetric]
    by auto
qed

lemma ascending_length:
  assumes "sorted_wrt (<) m" and "list_all (\<lambda>j. j < n) (m :: nat list)"
  shows "length m \<le> n"
proof -
  from assms(1) have "distinct m" by (simp add: strict_sorted_iff)
  then have "length m = card (set m)" by (simp add: distinct_card)
  also from assms(2) have "set m \<subseteq> {..<n}" by (auto simp: list_all_iff)
  then have "card (set m) \<le> card {..<n}" by (intro card_mono) auto
  finally show ?thesis by simp
qed

lemma merge_ok:
  assumes "reference < length rs" and "ascending_below (length rs) m"
  shows "\<exists>rs'. merge rs reference m = Inr rs'"
proof -
  from assms have s: "sorted_wrt (<) m" and a: "list_all (\<lambda>j. j < length rs) m"
    by (simp_all add: ascending_below_def)
  from merge_cover_ok[OF assms(1) a] obtain rs1 where
    c: "merge_cover rs reference m = Inr rs1" by blast
  have l1: "length rs1 = length rs" by (rule merge_cover_length[OF c])
  from a l1 have "list_all (\<lambda>j. 0 \<le> j \<and> j < length rs1) m" by simp
  from merge_shift_ok[OF s this] obtain rs2 where
    sh: "merge_shift rs1 0 m = Inr rs2" by blast
  have l2: "length rs2 = length rs" using merge_shift_length[OF sh] l1 by simp
  from ascending_length[OF s a] l2 have "length m \<le> length rs2" by simp
  with c sh show ?thesis by (simp add: merge_def)
qed

lemma filter_upt_ascending:
  "filter P [0..<e] = ref # rest \<Longrightarrow> e \<le> n \<Longrightarrow>
   ref < e \<and> ascending_below (Suc n) (rest @ [n])"
proof -
  assume f: "filter P [0..<e] = ref # rest" and e: "e \<le> n"
  have "sorted_wrt (<) (filter P [0..<e])" by (simp add: sorted_wrt_filter)
  with f have s: "sorted_wrt (<) (ref # rest)" by simp
  have "set (filter P [0..<e]) \<subseteq> {..<e}" by auto
  with f have b: "set (ref # rest) \<subseteq> {..<e}" by simp
  from s b e show ?thesis
    by (auto simp: ascending_below_def sorted_wrt_append list_all_iff)
qed

lemma filter_upt_length:
  "filter P [0..<e] = ov \<Longrightarrow> length ov \<le> e"
  using length_filter_le[of P "[0..<e]"] by auto

lemma flush_loop_ok: "\<exists>rs'. flush_loop rs i = Inr rs'"
proof (induction rs i rule: flush_loop.induct)
  case (1 rs i)
  show ?case
  proof (cases "i < length rs")
    case False
    then show ?thesis by (subst flush_loop.simps) simp
  next
    case True
    define ov where "ov = filter (\<lambda>k. overlapping (rs ! i) (rs ! k)) [0..<i]"
    from True have o: "overlaps rs (rs ! i) 0 i = Inr ov"
      by (simp add: overlaps_filter ov_def)
    show ?thesis
    proof (cases ov)
      case Nil
      with 1(1)[OF True o Nil] True o show ?thesis
        by (subst flush_loop.simps) simp
    next
      case (Cons ref rest)
      obtain k where k: "length rs = Suc k" using True by (cases rs) auto
      from Cons have "filter (\<lambda>k. overlapping (rs ! i) (rs ! k)) [0..<i] = ref # rest"
        by (simp add: ov_def)
      from filter_upt_ascending[OF this order_refl]
      have r: "ref < i" and a: "ascending_below (Suc i) (rest @ [i])" by simp_all
      from a True have a': "ascending_below (length rs) (rest @ [i])"
        by (auto simp: ascending_below_def list_all_iff)
      from r True have "ref < length rs" by simp
      from merge_ok[OF this a'] obtain rs' where m: "merge rs ref (rest @ [i]) = Inr rs'"
        by blast
      from 1(2)[OF True o Cons m] True o Cons m show ?thesis
        by (subst flush_loop.simps) simp
    qed
  qed
qed

lemma Add_ok:
  "\<exists>rs'. Add r r2 = Inr (r\<lparr>regions := rs'\<rparr>, onChangeCallbacks r)"
proof -
  define n where "n = length (regions r)"
  define ov where "ov = filter (\<lambda>k. overlapping r2 (regions r ! k)) [0..<n]"
  have o: "overlaps (regions r) r2 0 (length (regions r)) = Inr ov"
    by (simp add: overlaps_filter ov_def n_def)
  show ?thesis
  proof (cases ov)
    case Nil
    with o show ?thesis
      by (intro exI[where x = "regions r @ [r2]"]) (simp add: Add_def onChange_def)
  next
    case (Cons ref rest)
    then have "filter (\<lambda>k. overlapping r2 (regions r ! k)) [0..<n] = ref # rest"
      by (simp add: ov_def)
    from filter_upt_ascending[OF this order_refl]
    have r: "ref < n" and a: "ascending_below (Suc n) (rest @ [n])" by simp_all
    from r have r': "ref < length (regions r @ [r2])" by (simp add: n_def)
    from a have a': "ascending_below (length (regions r @ [r2])) (rest @ [n])"
      by (simp add: n_def)
    from merge_ok[OF r' a'] obtain rs' where
      m: "merge (regions r @ [r2]) ref (rest @ [n]) = Inr rs'" by blast
    with o Cons show ?thesis
      by (intro exI[where x = rs']) (simp add: Add_def onChange_def n_def)
  qed
qed

lemma AddAll_loop_ok:
  "start + length rs \<le> length regs \<Longrightarrow> \<exists>regs'. AddAll_loop regs start rs = Inr regs'"
proof (induction rs arbitrary: regs start)
  case Nil
  then show ?case by simp
next
  case (Cons r2 rs)
  define ov where "ov = filter (\<lambda>k. overlapping r2 (regs ! k)) [0..<start]"
  from Cons.prems have o: "overlaps regs r2 0 start = Inr ov"
    by (simp add: overlaps_filter ov_def)
  show ?case
  proof (cases ov)
    case Nil
    from Cons.prems have "start + length rs \<le> length regs" by simp
    from Cons.IH[OF this] o Nil show ?thesis by simp
  next
    case c: (Cons ref rest)
    obtain n where n: "length regs = Suc n" using Cons.prems by (cases regs) auto
    from c have f: "filter (\<lambda>k. overlapping r2 (regs ! k)) [0..<start] = ref # rest"
      by (simp add: ov_def)
    from Cons.prems n have sn: "start \<le> n" by simp
    from filter_upt_ascending[OF f sn]
    have r: "ref < start" and a: "ascending_below (Suc n) (rest @ [n])" by simp_all
    from r sn n have r': "ref < length regs" by simp
    from a n have a': "ascending_below (length regs) (rest @ [length regs - 1])" by simp
    from merge_ok[OF r' a'] obtain regs' where
      m: "merge regs ref (rest @ [length regs - 1]) = Inr regs'" by blast
    from merge_length[OF m] have l: "length regs' = length regs - Suc (length rest)" by simp
    from filter_upt_length[OF f] have "Suc (length rest) \<le> start" by simp
    with l Cons.prems have "(start - Suc (length rest)) + length rs \<le> length regs'" by simp
    from Cons.IH[OF this] o c m show ?thesis by (simp add: Let_def)
  qed
qed

lemma flush_ok: "\<exists>rs'. flush r = Inr (r\<lparr>regions := rs'\<rparr>, onChangeCallbacks r)"
proof -
  obtain b where b: "flush_loop (regions r) 1 = Inr b" using flush_loop_ok by blast
  then show ?thesis
    by (intro exI[where x = b]) (simp add: flush_def onChange_def)
qed

lemma AddAll_ok: "\<exists>rs'. AddAll r rs = Inr (r\<lparr>regions := rs'\<rparr>, onChangeCallbacks r)"
proof -
  obtain b where b: "flush_loop rs 1 = Inr b" using flush_loop_ok by blast
  have "length (regions r) + length b \<le> length (regions r @ b)" by simp
  from AddAll_loop_ok[OF this] obtain regs' where
    "AddAll_loop (regions r @ b) (length (regions r)) b = Inr regs'" by blast
  with b show ?thesis
    by (intro exI[where x = regs']) (simp add: AddAll_def flush_def onChange_def Regions_def)
qed

section \<open>Where the compaction of merge is right\<close>

text \<open>With a single index to remove, \<^verbatim>\<open>merge\<close> shifts everything behind it: the result is
  the slice with the target covered and the entry at the index gone.\<close>

lemma merge_single_index:
  assumes "target < length rs" and "j < length rs"
  shows "merge rs target [j] =
           Inr (take j (rs[target := Cover (rs ! target) (rs ! j)])
                @ drop (j + 1) (rs[target := Cover (rs ! target) (rs ! j)]))"
proof -
  define ys where "ys = rs[target := Cover (rs ! target) (rs ! j)]"
  define zs where "zs = copy_at ys j (drop (j + 1) ys)"
  have l: "length ys = length rs" by (simp add: ys_def)
  from assms have c: "merge_cover rs target [j] = Inr ys" by (simp add: ys_def)
  from assms have ne: "rs \<noteq> []" by auto
  from assms l ne have s: "merge_shift ys 0 [j] = Inr zs"
    by (simp add: Let_def zs_def)
  from assms l have lz: "length zs = length rs" by (simp add: zs_def copy_at_length)
  from assms l have n: "min (length ys - j) (length ys - (j + 1)) = length ys - (j + 1)"
    by simp
  have t: "take (length zs - 1) zs = take j ys @ drop (j + 1) ys"
    using assms l unfolding lz by (simp add: zs_def copy_at_def Let_def n)
  from assms lz have "length [j] \<le> length zs" by simp
  with c s t show ?thesis
    by (simp add: merge_def ys_def[symmetric])
qed


section \<open>Cutting, as a sequence of additions\<close>

lemma Add_each_append:
  "Add_each r (xs @ ys) =
     (case Add_each r xs of
        Inl e \<Rightarrow> Inl e
      | Inr (r', c) \<Rightarrow>
          (case Add_each r' ys of
             Inl e \<Rightarrow> Inl e
           | Inr (r'', c') \<Rightarrow> Inr (r'', c @ c')))"
  by (induction xs arbitrary: r) (auto split: sum.splits prod.splits)

lemma Add_each_no_callbacks:
  "onChangeCallbacks r = [] \<Longrightarrow> \<exists>rs'. Add_each r xs = Inr (r\<lparr>regions := rs'\<rparr>, [])"
proof (induction xs arbitrary: r)
  case Nil
  show ?case by (intro exI[where x = "regions r"]) simp
next
  case (Cons x xs)
  from Add_ok[of r x] Cons.prems obtain rs1 where
    a: "Add r x = Inr (r\<lparr>regions := rs1\<rparr>, [])" by auto
  from Cons.prems have "onChangeCallbacks (r\<lparr>regions := rs1\<rparr>) = []" by simp
  from Cons.IH[OF this] obtain rs2 where
    b: "Add_each (r\<lparr>regions := rs1\<rparr>) xs = Inr (r\<lparr>regions := rs2\<rparr>, [])" by auto
  from a b show ?case by (intro exI[where x = rs2]) simp
qed

lemma Cut_inner_Add_each:
  "Cut_inner ret xs calls =
     (case Add_each ret (filter (\<lambda>p. \<not> Empty p) xs) of
        Inl e \<Rightarrow> Inl e
      | Inr (ret', c) \<Rightarrow> Inr (ret', calls @ c))"
  by (induction xs arbitrary: ret calls) (auto split: sum.splits prod.splits)

lemma Cut_loop_Add_each:
  "Cut_loop xs r2 ret calls =
     (case Add_each ret (filter (\<lambda>p. \<not> Empty p) (concat (map (\<lambda>s. Region_Cut s r2) xs))) of
        Inl e \<Rightarrow> Inl e
      | Inr (ret', c) \<Rightarrow> Inr (ret', calls @ c))"
  by (induction xs arbitrary: ret calls)
     (auto simp: Cut_inner_Add_each Add_each_append split: sum.splits prod.splits)


section \<open>Adding to an empty set and to a set of one region\<close>






section \<open>The properties\<close>

text \<open>The definitions that a run on concrete regions unfolds.\<close>

lemmas run_simps = Add_def overlaps_def overlaps_loop.simps merge_def copy_at_def
  overlapping_def Intersects_def Covers_def Cover_def onChange_def Let_def

text \<open>
  C1. After every call of \<^verbatim>\<open>Add\<close>, \<^verbatim>\<open>AddAll\<close>, \<^verbatim>\<open>Subtract\<close> or \<^verbatim>\<open>Adjust\<close>, no two stored
  regions intersect and none covers another. The code does not keep this. The set holding
  \<open>[0,2]\<close>, \<open>[4,6]\<close>, \<open>[10,12]\<close> is non-overlapping (it is what three calls of \<^verbatim>\<open>Add\<close> on the
  empty set leave). \<^verbatim>\<open>Add([1,5])\<close> finds the overlaps at the indices 0 and 1 and calls
  \<^verbatim>\<open>merge(0, [1, 3])\<close>; the compaction of \<^verbatim>\<open>merge\<close> takes \<^verbatim>\<open>merge[i+1] - 1\<close> as the end of
  the stretch to shift, one short, so the entry before the next removed index is never moved:
  \<open>[4,6]\<close> stays, \<open>[10,12]\<close> is cut off, and the set ends as \<open>[0,6]\<close>, \<open>[4,6]\<close>, where the
  first covers and intersects the second.
\<close>

theorem Add_breaks_non_overlap:
  "Add_each \<lparr>regions = [], onChangeCallbacks = cbs\<rparr>
     [\<lparr>Begin = 0, End = 2\<rparr>, \<lparr>Begin = 4, End = 6\<rparr>, \<lparr>Begin = 10, End = 12\<rparr>]
     = Inr (\<lparr>regions = [\<lparr>Begin = 0, End = 2\<rparr>, \<lparr>Begin = 4, End = 6\<rparr>, \<lparr>Begin = 10, End = 12\<rparr>],
             onChangeCallbacks = cbs\<rparr>, cbs @ cbs @ cbs)
   \<and> non_overlapping [\<lparr>Begin = 0, End = 2\<rparr>, \<lparr>Begin = 4, End = 6\<rparr>, \<lparr>Begin = 10, End = 12\<rparr>]
   \<and> Add \<lparr>regions = [\<lparr>Begin = 0, End = 2\<rparr>, \<lparr>Begin = 4, End = 6\<rparr>, \<lparr>Begin = 10, End = 12\<rparr>],
           onChangeCallbacks = cbs\<rparr> \<lparr>Begin = 1, End = 5\<rparr>
     = Inr (\<lparr>regions = [\<lparr>Begin = 0, End = 6\<rparr>, \<lparr>Begin = 4, End = 6\<rparr>],
             onChangeCallbacks = cbs\<rparr>, cbs)
   \<and> \<not> non_overlapping [\<lparr>Begin = 0, End = 6\<rparr>, \<lparr>Begin = 4, End = 6\<rparr>]"
  by (simp add: run_simps conflict_def)

text \<open>
  C2. For an ascending index list without the target, \<^verbatim>\<open>merge(target, indices)\<close> leaves the
  sequence with the target replaced by its repeated cover with the indexed entries, exactly
  the indexed entries removed and the others in their order. The code does not do this when
  an entry lies behind a removed index that is not the only one: in the call
  \<^verbatim>\<open>merge(0, [1, 2])\<close> that \<^verbatim>\<open>flush\<close> makes on the five regions below, the entry \<open>[1,5]\<close> at
  the removed index 2 stays and the entry \<open>[20,21]\<close>, which was to stay, is lost.
\<close>

theorem merge_drops_wrong_entry:
  "merge [\<lparr>Begin = 0, End = 2\<rparr>, \<lparr>Begin = 4, End = 6\<rparr>, \<lparr>Begin = 1, End = 5\<rparr>,
          \<lparr>Begin = 10, End = 11\<rparr>, \<lparr>Begin = 20, End = 21\<rparr>] 0 [1, 2]
     = Inr [\<lparr>Begin = 0, End = 6\<rparr>, \<lparr>Begin = 10, End = 11\<rparr>, \<lparr>Begin = 1, End = 5\<rparr>]
   \<and> merged_as_specified
         [\<lparr>Begin = 0, End = 2\<rparr>, \<lparr>Begin = 4, End = 6\<rparr>, \<lparr>Begin = 1, End = 5\<rparr>,
          \<lparr>Begin = 10, End = 11\<rparr>, \<lparr>Begin = 20, End = 21\<rparr>] 0 [1, 2]
     = [\<lparr>Begin = 0, End = 6\<rparr>, \<lparr>Begin = 10, End = 11\<rparr>, \<lparr>Begin = 20, End = 21\<rparr>]"
  by (simp add: run_simps merged_as_specified_def)

text \<open>
  C3. \<^verbatim>\<open>AddAll([A, B, C])\<close> leaves the same multiset of stored regions as \<^verbatim>\<open>Add(A)\<close>,
  \<^verbatim>\<open>Add(B)\<close>, \<^verbatim>\<open>Add(C)\<close>. The code does not do this. On the empty set and the batch \<open>[0,10]\<close>,
  \<open>[5,15]\<close>, \<open>[8,20]\<close> the loop of \<^verbatim>\<open>flush\<close> merges the second region into the first at
  \<open>i = 1\<close>, which moves the third region to index 1, and goes on with \<open>i = 2\<close>: the third
  region is never compared. \<^verbatim>\<open>AddAll\<close> stores \<open>[0,15]\<close> and \<open>[8,20]\<close>, three calls of \<^verbatim>\<open>Add\<close>
  store \<open>[0,20]\<close> alone.
\<close>

theorem AddAll_differs_from_Add:
  "AddAll \<lparr>regions = [], onChangeCallbacks = cbs\<rparr>
     [\<lparr>Begin = 0, End = 10\<rparr>, \<lparr>Begin = 5, End = 15\<rparr>, \<lparr>Begin = 8, End = 20\<rparr>]
     = Inr (\<lparr>regions = [\<lparr>Begin = 0, End = 15\<rparr>, \<lparr>Begin = 8, End = 20\<rparr>],
             onChangeCallbacks = cbs\<rparr>, cbs)
   \<and> Add_each \<lparr>regions = [], onChangeCallbacks = cbs\<rparr>
     [\<lparr>Begin = 0, End = 10\<rparr>, \<lparr>Begin = 5, End = 15\<rparr>, \<lparr>Begin = 8, End = 20\<rparr>]
     = Inr (\<lparr>regions = [\<lparr>Begin = 0, End = 20\<rparr>], onChangeCallbacks = cbs\<rparr>, cbs @ cbs @ cbs)
   \<and> mset [\<lparr>Begin = 0, End = 15\<rparr>, \<lparr>Begin = 8, End = 20\<rparr>] \<noteq> mset [\<lparr>Begin = 0, End = 20\<rparr>]"
  by (simp add: run_simps AddAll_def flush_def flush_loop.simps Regions_def)

text \<open>
  C4. From the empty set, \<^verbatim>\<open>Add([1,3])\<close>, \<^verbatim>\<open>Add([5,8])\<close>, \<^verbatim>\<open>Add([2,6])\<close> leave the single
  region \<open>[1,8]\<close>, and \<^verbatim>\<open>Subtract([4,5])\<close> on that set leaves the two regions \<open>[1,4]\<close> and
  \<open>[5,8]\<close>. Every call invokes the registered callbacks once.
\<close>

theorem scenario_add_then_subtract:
  "Add_each \<lparr>regions = [], onChangeCallbacks = cbs\<rparr>
     [\<lparr>Begin = 1, End = 3\<rparr>, \<lparr>Begin = 5, End = 8\<rparr>, \<lparr>Begin = 2, End = 6\<rparr>]
   = Inr (\<lparr>regions = [\<lparr>Begin = 1, End = 8\<rparr>], onChangeCallbacks = cbs\<rparr>, cbs @ cbs @ cbs)
   \<and> Subtract \<lparr>regions = [\<lparr>Begin = 1, End = 8\<rparr>], onChangeCallbacks = cbs\<rparr> \<lparr>Begin = 4, End = 5\<rparr>
   = Inr (\<lparr>regions = [\<lparr>Begin = 1, End = 4\<rparr>, \<lparr>Begin = 5, End = 8\<rparr>], onChangeCallbacks = cbs\<rparr>, cbs)"
  by (simp add: run_simps Subtract_def Cut_def Region_Cut_def Empty_def)




text \<open>
  C6. \<^verbatim>\<open>Cut(X)\<close> leaves the receiver as it was, sequence and callbacks, invokes no callback,
  and returns a new set with an empty registry: the set that adding, by \<^verbatim>\<open>Add\<close> and in
  order, every non-empty piece of cutting \<open>X\<close> out of each stored region to an empty set
  gives. The call never panics.
\<close>

theorem Cut_frame:
  "\<exists>ret. Cut r X = Inr (r, ret, [])
     \<and> onChangeCallbacks ret = []
     \<and> Add_each \<lparr>regions = [], onChangeCallbacks = []\<rparr>
          (filter (\<lambda>p. \<not> Empty p) (concat (map (\<lambda>s. Region_Cut s X) (regions r))))
        = Inr (ret, [])"
proof -
  let ?new = "\<lparr>regions = [], onChangeCallbacks = []\<rparr> :: 'a RegionSet"
  let ?pieces = "filter (\<lambda>p. \<not> Empty p) (concat (map (\<lambda>s. Region_Cut s X) (regions r)))"
  have "onChangeCallbacks ?new = []" by simp
  from Add_each_no_callbacks[OF this, of ?pieces] obtain rs' where
    a: "Add_each ?new ?pieces = Inr (?new\<lparr>regions := rs'\<rparr>, [])" by blast
  then have "Cut r X = Inr (r, ?new\<lparr>regions := rs'\<rparr>, [])"
    by (simp add: Cut_def Cut_loop_Add_each)
  with a show ?thesis by (intro exI[where x = "?new\<lparr>regions := rs'\<rparr>"]) simp
qed

text \<open>
  C7. \<^verbatim>\<open>Clear\<close> on a set whose sequence is empty already returns the set as it was and
  invokes every registered callback exactly once; one call of \<^verbatim>\<open>AddAll\<close>, whatever the
  batch and however many merges it causes, returns and invokes every registered callback
  exactly once.
\<close>

theorem callbacks_fire_once:
  "(regions r = [] \<longrightarrow>
      (\<exists>calls. Clear r = Inr (r, calls) \<and> mset calls = mset (onChangeCallbacks r))) \<and>
   (\<exists>r' calls. AddAll r rs = Inr (r', calls) \<and> mset calls = mset (onChangeCallbacks r))"
proof
  show "regions r = [] \<longrightarrow>
      (\<exists>calls. Clear r = Inr (r, calls) \<and> mset calls = mset (onChangeCallbacks r))"
    by (simp add: Clear_def flush_def flush_loop.simps onChange_def)
next
  from AddAll_ok[of r rs] show
    "\<exists>r' calls. AddAll r rs = Inr (r', calls) \<and> mset calls = mset (onChangeCallbacks r)"
    by auto
qed

theorem callbacks_fire_once_witness:
  "regions \<lparr>regions = [], onChangeCallbacks = [(''a'', 1 :: nat), (''b'', 2)]\<rparr> = []
   \<and> (\<exists>calls. Clear \<lparr>regions = [], onChangeCallbacks = [(''a'', 1 :: nat), (''b'', 2)]\<rparr>
         = Inr (\<lparr>regions = [], onChangeCallbacks = [(''a'', 1), (''b'', 2)]\<rparr>, calls)
       \<and> mset calls = mset [(''a'', 1), (''b'', 2)])
   \<and> (\<exists>r' calls. AddAll \<lparr>regions = [], onChangeCallbacks = [(''a'', 1 :: nat), (''b'', 2)]\<rparr>
           [\<lparr>Begin = 0, End = 10\<rparr>, \<lparr>Begin = 5, End = 15\<rparr>] = Inr (r', calls)
       \<and> mset calls = mset [(''a'', 1), (''b'', 2)])"
  using callbacks_fire_once[of "\<lparr>regions = [], onChangeCallbacks = [(''a'', 1 :: nat), (''b'', 2)]\<rparr>"
      "[\<lparr>Begin = 0, End = 10\<rparr>, \<lparr>Begin = 5, End = 15\<rparr>]"]
  by simp

text \<open>
  C8. \<^verbatim>\<open>Contains(R)\<close> is true exactly when some stored region equals \<open>R\<close> or contains, as
  points, both the begin and the end of \<open>R\<close>.
\<close>

theorem Contains_iff:
  "Contains r R \<longleftrightarrow>
     (\<exists>s \<in> set (regions r).
        s = R \<or> (Region_Contains s (Begin R) \<and> Region_Contains s (End R)))"
proof -
  have "Contains_loop xs R \<longleftrightarrow>
     (\<exists>s \<in> set xs. s = R \<or> (Region_Contains s (Begin R) \<and> Region_Contains s (End R)))"
    for xs
    by (induction xs) auto
  then show ?thesis by (simp add: Contains_def)
qed

theorem Contains_iff_witness:
  "Contains \<lparr>regions = [\<lparr>Begin = 0, End = 2\<rparr>, \<lparr>Begin = 4, End = 9\<rparr>],
             onChangeCallbacks = ([] :: (string \<times> unit) list)\<rparr> \<lparr>Begin = 5, End = 6\<rparr>
   \<and> (\<exists>s \<in> set [\<lparr>Begin = 0, End = 2\<rparr>, \<lparr>Begin = 4, End = 9\<rparr>].
        s = \<lparr>Begin = 5, End = 6\<rparr> \<or> (Region_Contains s 5 \<and> Region_Contains s 6))"
  using Contains_iff[of "\<lparr>regions = [\<lparr>Begin = 0, End = 2\<rparr>, \<lparr>Begin = 4, End = 9\<rparr>],
             onChangeCallbacks = ([] :: (string \<times> unit) list)\<rparr>" "\<lparr>Begin = 5, End = 6\<rparr>"]
  by (simp add: Region_Contains_def)

text \<open>
  C9. \<^verbatim>\<open>Get(i)\<close> returns the stored region at position \<open>i\<close> when \<open>0 \<le> i < Len()\<close> and
  panics for every other \<open>i\<close>.
\<close>

theorem Get_in_and_out_of_range:
  "(0 \<le> i \<and> i < Len r \<longrightarrow> Get r i = Inr (regions r ! nat i)) \<and>
   (\<not> (0 \<le> i \<and> i < Len r) \<longrightarrow> Get r i = Inl IndexOutOfRange)"
  by (simp add: Get_def Len_def)

theorem Get_in_and_out_of_range_witness:
  "Get \<lparr>regions = [\<lparr>Begin = 0, End = 2\<rparr>, \<lparr>Begin = 4, End = 9\<rparr>],
        onChangeCallbacks = ([] :: (string \<times> unit) list)\<rparr> 1 = Inr \<lparr>Begin = 4, End = 9\<rparr>
   \<and> Get \<lparr>regions = [\<lparr>Begin = 0, End = 2\<rparr>, \<lparr>Begin = 4, End = 9\<rparr>],
        onChangeCallbacks = ([] :: (string \<times> unit) list)\<rparr> 2 = Inl IndexOutOfRange
   \<and> Get \<lparr>regions = [\<lparr>Begin = 0, End = 2\<rparr>, \<lparr>Begin = 4, End = 9\<rparr>],
        onChangeCallbacks = ([] :: (string \<times> unit) list)\<rparr> (- 1) = Inl IndexOutOfRange"
  using
    Get_in_and_out_of_range[of 1 "\<lparr>regions = [\<lparr>Begin = 0, End = 2\<rparr>, \<lparr>Begin = 4, End = 9\<rparr>],
        onChangeCallbacks = ([] :: (string \<times> unit) list)\<rparr>"]
    Get_in_and_out_of_range[of 2 "\<lparr>regions = [\<lparr>Begin = 0, End = 2\<rparr>, \<lparr>Begin = 4, End = 9\<rparr>],
        onChangeCallbacks = ([] :: (string \<times> unit) list)\<rparr>"]
    Get_in_and_out_of_range[of "- 1" "\<lparr>regions = [\<lparr>Begin = 0, End = 2\<rparr>, \<lparr>Begin = 4, End = 9\<rparr>],
        onChangeCallbacks = ([] :: (string \<times> unit) list)\<rparr>"]
  by (simp add: Len_def)

text \<open>
  C10. \<^verbatim>\<open>HasNonEmpty\<close> says that some stored region is not empty, \<^verbatim>\<open>HasEmpty\<close> that some
  stored region is empty; on a set with no stored region both are false, so neither is the
  negation of the other.
\<close>

theorem HasEmpty_not_opposite:
  "(HasNonEmpty r \<longleftrightarrow> (\<exists>x \<in> set (regions r). \<not> Empty x)) \<and>
   (HasEmpty r \<longleftrightarrow> (\<exists>x \<in> set (regions r). Empty x)) \<and>
   (regions r = [] \<longrightarrow> \<not> HasNonEmpty r \<and> \<not> HasEmpty r)"
proof -
  have a: "HasNonEmpty_loop xs \<longleftrightarrow> (\<exists>x \<in> set xs. \<not> Empty x)" for xs
    by (induction xs) auto
  have b: "HasEmpty_loop xs \<longleftrightarrow> (\<exists>x \<in> set xs. Empty x)" for xs
    by (induction xs) auto
  show ?thesis by (simp add: HasNonEmpty_def HasEmpty_def a b)
qed

theorem HasEmpty_not_opposite_witness:
  "regions \<lparr>regions = [], onChangeCallbacks = ([] :: (string \<times> unit) list)\<rparr> = []
   \<and> \<not> HasNonEmpty \<lparr>regions = [], onChangeCallbacks = ([] :: (string \<times> unit) list)\<rparr>
   \<and> \<not> HasEmpty \<lparr>regions = [], onChangeCallbacks = ([] :: (string \<times> unit) list)\<rparr>"
  using HasEmpty_not_opposite[of "\<lparr>regions = [], onChangeCallbacks = ([] :: (string \<times> unit) list)\<rparr>"]
  by simp

end
